theory Spec2Isabelle
  imports Main "HOL-Library.Word"
begin

unbundle bit_operations_syntax

section \<open>Machine types\<close>

type_synonym u8 = "8 word"
type_synonym u32 = "32 word"
type_synonym u64 = "64 word"

section \<open>Kernel timeouts (kernel/generic/src/time/timeout.c)\<close>

text \<open>
  Pointers are natural numbers naming the object pointed to; a pointer that may be
  \<^verbatim>\<open>NULL\<close> is an \<open>option\<close>, \<open>None\<close> being \<^verbatim>\<open>NULL\<close>.
  The kernel's intrusive doubly linked list \<^verbatim>\<open>timeout_active_list\<close> is the sequence of
  the timeouts linked into it, head first; the \<^verbatim>\<open>link\<close> member of a timeout is its place in
  that sequence.  The embedding is sequential: one call runs at a time, so every spinlock is
  free when a call starts, \<^verbatim>\<open>irq_spinlock_lock\<close> and \<^verbatim>\<open>irq_spinlock_unlock\<close> leave the
  data untouched and \<^verbatim>\<open>irq_spinlock_trylock\<close> succeeds at its first attempt.
\<close>

type_synonym cpu_ptr = nat
type_synonym timeout_ptr = nat
type_synonym handler_ptr = nat
type_synonym arg_ptr = nat

record timeout_t =
  cpu :: "cpu_ptr option"
  deadline :: u64
  handler :: "handler_ptr option"
  arg :: "arg_ptr option"

record cpu_t =
  current_clock_tick :: u64
  timeout_active_list :: "timeout_ptr list"

record kernel =
  cpus :: "cpu_ptr \<Rightarrow> cpu_t"
  timeouts :: "timeout_ptr \<Rightarrow> timeout_t"

datatype fault = Panic string

text \<open>
  The list primitives of \<^verbatim>\<open>adt/list.h\<close> (a header outside the sources at hand), on the
  sequence of linked items.  \<open>list_insert_after\<close> and \<open>list_remove\<close> find the link they
  are given by identity; a link that is not in the sequence leaves the sequence as it is.
\<close>

definition list_prepend :: "'a \<Rightarrow> 'a list \<Rightarrow> 'a list" where
  "list_prepend lnk xs = lnk # xs"

fun list_insert_after :: "'a \<Rightarrow> 'a \<Rightarrow> 'a list \<Rightarrow> 'a list" where
  "list_insert_after lnk prev [] = []"
| "list_insert_after lnk prev (x # xs) =
     (if x = prev then x # lnk # xs else x # list_insert_after lnk prev xs)"

fun list_remove :: "'a \<Rightarrow> 'a list \<Rightarrow> 'a list" where
  "list_remove lnk [] = []"
| "list_remove lnk (x # xs) = (if x = lnk then xs else x # list_remove lnk xs)"

text \<open>\<^verbatim>\<open>timeout_init\<close>: the calling processor's active list becomes empty.\<close>

definition timeout_init :: "cpu_ptr \<Rightarrow> kernel \<Rightarrow> kernel" where
  "timeout_init CPU s =
     s\<lparr>cpus := (cpus s)(CPU := (cpus s CPU)\<lparr>timeout_active_list := []\<rparr>)\<rparr>"

text \<open>
  \<^verbatim>\<open>timeout_reinitialize\<close>: every member but the lock is reset.  \<^verbatim>\<open>link_initialize\<close>
  clears the link of a timeout that is in no list, which the sequences do not record.
\<close>

definition timeout_reinitialize :: "timeout_ptr \<Rightarrow> kernel \<Rightarrow> kernel" where
  "timeout_reinitialize timeout s =
     s\<lparr>timeouts := (timeouts s)(timeout :=
        \<lparr>cpu = None, deadline = 0, handler = None, arg = None\<rparr>)\<rparr>"

definition timeout_initialize :: "timeout_ptr \<Rightarrow> kernel \<Rightarrow> kernel" where
  "timeout_initialize timeout s = timeout_reinitialize timeout s"

text \<open>
  The loop of \<^verbatim>\<open>timeout_register\<close> that looks for the insertion point.  The cursor
  \<^verbatim>\<open>cur\<close> is the part of the list not yet visited; the result is \<^verbatim>\<open>prev\<close> when the
  loop ends, by \<^verbatim>\<open>break\<close> or at the end of the list.
\<close>

fun register_scan ::
  "(timeout_ptr \<Rightarrow> timeout_t) \<Rightarrow> u64 \<Rightarrow> timeout_ptr list \<Rightarrow> timeout_ptr option
     \<Rightarrow> timeout_ptr option" where
  "register_scan ts d [] prev = prev"
| "register_scan ts d (cur # rest) prev =
     (if d < deadline (ts cur) then prev else register_scan ts d rest (Some cur))"

text \<open>
  \<^verbatim>\<open>timeout_register\<close>, run on processor \<open>CPU\<close>.  The macro \<^verbatim>\<open>us2ticks\<close> is defined
  outside the sources at hand and is a parameter.  A panic halts the kernel: the result is
  \<open>Inl\<close> and no state is returned.
\<close>

definition timeout_register ::
  "(u64 \<Rightarrow> u64) \<Rightarrow> cpu_ptr \<Rightarrow> timeout_ptr \<Rightarrow> u64 \<Rightarrow> handler_ptr option \<Rightarrow> arg_ptr option
     \<Rightarrow> kernel \<Rightarrow> fault + kernel" where
  "timeout_register us2ticks CPU timeout time hnd ag s =
     (if cpu (timeouts s timeout) \<noteq> None
      then Inl (Panic ''Unexpected: timeout->cpu != 0.'')
      else
        let s1 = s\<lparr>timeouts := (timeouts s)(timeout :=
                   \<lparr>cpu = Some CPU,
                    deadline = current_clock_tick (cpus s CPU) + us2ticks time,
                    handler = hnd,
                    arg = ag\<rparr>)\<rparr>;
            l = timeout_active_list (cpus s1 CPU);
            l' = (case register_scan (timeouts s1) (deadline (timeouts s1 timeout)) l None of
                    None \<Rightarrow> list_prepend timeout l
                  | Some prev \<Rightarrow> list_insert_after timeout prev l)
        in Inr (s1\<lparr>cpus := (cpus s1)(CPU := (cpus s1 CPU)\<lparr>timeout_active_list := l'\<rparr>)\<rparr>))"

text \<open>
  \<^verbatim>\<open>timeout_unregister\<close>: the result is the value returned and the state left behind.
\<close>

definition timeout_unregister :: "timeout_ptr \<Rightarrow> kernel \<Rightarrow> bool \<times> kernel" where
  "timeout_unregister timeout s =
     (case cpu (timeouts s timeout) of
        None \<Rightarrow> (False, s)
      | Some c \<Rightarrow>
          let s1 = s\<lparr>cpus := (cpus s)(c := (cpus s c)
                     \<lparr>timeout_active_list := list_remove timeout (timeout_active_list (cpus s c))\<rparr>)\<rparr>
          in (True, timeout_reinitialize timeout s1))"

text \<open>
  Sequences of calls.  \<open>Register\<close> names the processor the call runs on.  \<open>Clock\<close> is the
  environment: the clock interrupt handler (outside the sources at hand) writes the
  processor's \<^verbatim>\<open>current_clock_tick\<close>; only that write is recorded, with any new value.
\<close>

datatype call =
    Register cpu_ptr timeout_ptr u64 "handler_ptr option" "arg_ptr option"
  | Unregister timeout_ptr
  | Clock cpu_ptr u64

fun do_call :: "(u64 \<Rightarrow> u64) \<Rightarrow> call \<Rightarrow> kernel \<Rightarrow> fault + kernel" where
  "do_call us2ticks (Register CPU timeout time hnd ag) s =
     timeout_register us2ticks CPU timeout time hnd ag s"
| "do_call us2ticks (Unregister timeout) s = Inr (snd (timeout_unregister timeout s))"
| "do_call us2ticks (Clock CPU tick) s =
     Inr (s\<lparr>cpus := (cpus s)(CPU := (cpus s CPU)\<lparr>current_clock_tick := tick\<rparr>)\<rparr>)"

fun run_calls :: "(u64 \<Rightarrow> u64) \<Rightarrow> call list \<Rightarrow> kernel \<Rightarrow> fault + kernel" where
  "run_calls us2ticks [] s = Inr s"
| "run_calls us2ticks (c # cs) s =
     (case do_call us2ticks c s of Inl e \<Rightarrow> Inl e | Inr s' \<Rightarrow> run_calls us2ticks cs s')"

text \<open>
  The state after boot: \<^verbatim>\<open>timeout_init\<close> has run on every processor and
  \<^verbatim>\<open>timeout_initialize\<close> on every timeout; \<open>ticks\<close> gives each processor's clock.
\<close>

definition boot :: "(cpu_ptr \<Rightarrow> u64) \<Rightarrow> kernel" where
  "boot ticks =
     \<lparr>cpus = (\<lambda>c. \<lparr>current_clock_tick = ticks c, timeout_active_list = []\<rparr>),
      timeouts = (\<lambda>t. \<lparr>cpu = None, deadline = 0, handler = None, arg = None\<rparr>)\<rparr>"

text \<open>The deadlines along a processor's active list.\<close>

definition deadlines :: "kernel \<Rightarrow> cpu_ptr \<Rightarrow> u64 list" where
  "deadlines s c = map (\<lambda>t. deadline (timeouts s t)) (timeout_active_list (cpus s c))"

text \<open>
  The data invariant of the queues: no timeout is linked twice, every list is ascending by
  deadline, and a timeout linked into a processor's list is owned by that processor.
\<close>

definition queue_inv :: "kernel \<Rightarrow> bool" where
  "queue_inv s \<longleftrightarrow>
     (\<forall>c. distinct (timeout_active_list (cpus s c)) \<and> sorted (deadlines s c) \<and>
          list_all (\<lambda>t. cpu (timeouts s t) = Some c) (timeout_active_list (cpus s c)))"

text \<open>
  The converse linkage: a timeout that names an owning processor is linked into that
  processor's active list.
\<close>

definition owner_linked :: "kernel \<Rightarrow> bool" where
  "owner_linked s \<longleftrightarrow>
     (\<forall>t c. cpu (timeouts s t) = Some c \<longrightarrow> t \<in> set (timeout_active_list (cpus s c)))"

text \<open>A queue with two timeouts on processor 0: timeout 2 due at tick 10, then timeout 1 due at tick 30.\<close>

definition two_queued :: kernel where
  "two_queued =
     \<lparr>cpus = (\<lambda>c. \<lparr>current_clock_tick = 0, timeout_active_list = []\<rparr>)
               (0 := \<lparr>current_clock_tick = 0, timeout_active_list = [2, 1]\<rparr>),
      timeouts = (\<lambda>t. \<lparr>cpu = None, deadline = 0, handler = None, arg = None\<rparr>)
               (1 := \<lparr>cpu = Some 0, deadline = 30, handler = None, arg = None\<rparr>,
                2 := \<lparr>cpu = Some 0, deadline = 10, handler = None, arg = None\<rparr>)\<rparr>"

section \<open>Interrupt pseudocode (kernel/generic/include/ddi/irq.h)\<close>

text \<open>The opcodes, in the order of the enumeration \<^verbatim>\<open>irq_cmd_type\<close>.\<close>

datatype irq_cmd_type =
    CMD_PIO_READ_8 | CMD_PIO_READ_16 | CMD_PIO_READ_32
  | CMD_PIO_WRITE_8 | CMD_PIO_WRITE_16 | CMD_PIO_WRITE_32
  | CMD_PIO_WRITE_A_8 | CMD_PIO_WRITE_A_16 | CMD_PIO_WRITE_A_32
  | CMD_MEM_READ_8 | CMD_MEM_READ_16 | CMD_MEM_READ_32
  | CMD_MEM_WRITE_8 | CMD_MEM_WRITE_16 | CMD_MEM_WRITE_32
  | CMD_MEM_WRITE_A_8 | CMD_MEM_WRITE_A_16 | CMD_MEM_WRITE_A_32
  | CMD_BTEST
  | CMD_PREDICATE
  | CMD_ACCEPT
  | CMD_DECLINE
  | CMD_LAST

text \<open>
  \<^verbatim>\<open>irq_cmd_t\<close>.  The member \<^verbatim>\<open>value\<close> is the field \<open>cmd_value\<close>; \<^verbatim>\<open>addr\<close> is an
  address of the I/O or memory space, \<^verbatim>\<open>srcarg\<close> and \<^verbatim>\<open>dstarg\<close> are indices of scratch
  registers.
\<close>

record irq_cmd_t =
  cmd :: irq_cmd_type
  addr :: nat
  cmd_value :: u32
  srcarg :: nat
  dstarg :: nat

text \<open>
  \<^verbatim>\<open>irq_code_t\<close>: the array \<^verbatim>\<open>cmds\<close> with its length \<^verbatim>\<open>cmdcount\<close> is a list.
\<close>

type_synonym irq_code_t = "irq_cmd_t list"

datatype irq_ownership_t = IRQ_DECLINE | IRQ_ACCEPT

text \<open>
  The NE2000 driver's program \<^verbatim>\<open>ne2k_cmds\<close> (uspace/srv/hw/netif/ne2000/ne2000.c),
  with the addresses the driver stores into it before registering it.  The register
  offsets and the \<^verbatim>\<open>ISR_*\<close> bits come from \<^verbatim>\<open>dp8390.h\<close>, outside the sources at
  hand: the three addresses and the mask are parameters.  Members the initialiser leaves
  out are zero.
\<close>

definition ne2k_cmds :: "nat \<Rightarrow> nat \<Rightarrow> nat \<Rightarrow> u32 \<Rightarrow> irq_code_t" where
  "ne2k_cmds isr_port imr_port tsr_port isr_mask =
     [\<lparr>cmd = CMD_PIO_READ_8, addr = isr_port, cmd_value = 0, srcarg = 0, dstarg = 2\<rparr>,
      \<lparr>cmd = CMD_BTEST, addr = 0, cmd_value = isr_mask, srcarg = 2, dstarg = 3\<rparr>,
      \<lparr>cmd = CMD_PREDICATE, addr = 0, cmd_value = 4, srcarg = 3, dstarg = 0\<rparr>,
      \<lparr>cmd = CMD_PIO_WRITE_8, addr = imr_port, cmd_value = 0, srcarg = 0, dstarg = 0\<rparr>,
      \<lparr>cmd = CMD_PIO_WRITE_A_8, addr = isr_port, cmd_value = 0, srcarg = 3, dstarg = 0\<rparr>,
      \<lparr>cmd = CMD_PIO_READ_8, addr = tsr_port, cmd_value = 0, srcarg = 0, dstarg = 3\<rparr>,
      \<lparr>cmd = CMD_ACCEPT, addr = 0, cmd_value = 0, srcarg = 0, dstarg = 0\<rparr>]"

subsection \<open>The interpreter\<close>

text \<open>
  Modelled from the spec: the machine the interpreter works on.  The interpreter itself and
  the port and memory accessors it calls are outside the sources at hand; the specification
  (section 4.4) speaks of loads from and stores to a pre-validated address of the I/O space
  or the memory space, 1, 2 or 4 bytes wide, and of the scratch registers.  Each space maps
  an address to the value found there, an access of \<open>n\<close> bytes transfers the low \<open>8 * n\<close>
  bits, and the scratch registers are 32 bits wide as \<^verbatim>\<open>ipc_notif_cfg_t\<close> declares them.
\<close>

record machine =
  scratch :: "nat \<Rightarrow> u32"
  pio :: "nat \<Rightarrow> u32"
  mem :: "nat \<Rightarrow> u32"

text \<open>
  Modelled from the spec: what one command leaves behind.  \<open>Running i m\<close>: go on with the
  command at position \<open>i\<close>; \<open>Finished r m\<close>: the program stops with outcome \<open>r\<close>, which
  is \<open>None\<close> when no Accept or Decline fixed one.
\<close>

datatype status = Running nat machine | Finished "irq_ownership_t option" machine

text \<open>
  Modelled from the spec: the semantics per opcode of section 4.4 (the interpreter loop of
  the kernel is outside the sources at hand), for the command \<open>c\<close> at position \<open>i\<close>.
  Read loads from the address into \<open>scratch[dst]\<close>; Write stores the immediate value and
  the write-from-register variant stores \<open>scratch[src]\<close>; bit-test sets \<open>scratch[dst]\<close> to
  \<open>scratch[src] & value\<close>; Predicate skips the next \<open>value\<close> commands if \<open>scratch[src]\<close> is
  zero and lets them run otherwise; Accept and Decline are terminal.  \<^verbatim>\<open>CMD_LAST\<close> is the
  enumeration's end marker, not an opcode: the program stops with no outcome.
\<close>

fun irq_exec_cmd :: "irq_cmd_t \<Rightarrow> nat \<Rightarrow> machine \<Rightarrow> status" where
  "irq_exec_cmd c i m =
     (case cmd c of
        CMD_PIO_READ_8 \<Rightarrow>
          Running (i + 1) (m\<lparr>scratch := (scratch m)(dstarg c := take_bit 8 (pio m (addr c)))\<rparr>)
      | CMD_PIO_READ_16 \<Rightarrow>
          Running (i + 1) (m\<lparr>scratch := (scratch m)(dstarg c := take_bit 16 (pio m (addr c)))\<rparr>)
      | CMD_PIO_READ_32 \<Rightarrow>
          Running (i + 1) (m\<lparr>scratch := (scratch m)(dstarg c := pio m (addr c))\<rparr>)
      | CMD_PIO_WRITE_8 \<Rightarrow>
          Running (i + 1) (m\<lparr>pio := (pio m)(addr c := take_bit 8 (cmd_value c))\<rparr>)
      | CMD_PIO_WRITE_16 \<Rightarrow>
          Running (i + 1) (m\<lparr>pio := (pio m)(addr c := take_bit 16 (cmd_value c))\<rparr>)
      | CMD_PIO_WRITE_32 \<Rightarrow>
          Running (i + 1) (m\<lparr>pio := (pio m)(addr c := cmd_value c)\<rparr>)
      | CMD_PIO_WRITE_A_8 \<Rightarrow>
          Running (i + 1) (m\<lparr>pio := (pio m)(addr c := take_bit 8 (scratch m (srcarg c)))\<rparr>)
      | CMD_PIO_WRITE_A_16 \<Rightarrow>
          Running (i + 1) (m\<lparr>pio := (pio m)(addr c := take_bit 16 (scratch m (srcarg c)))\<rparr>)
      | CMD_PIO_WRITE_A_32 \<Rightarrow>
          Running (i + 1) (m\<lparr>pio := (pio m)(addr c := scratch m (srcarg c))\<rparr>)
      | CMD_MEM_READ_8 \<Rightarrow>
          Running (i + 1) (m\<lparr>scratch := (scratch m)(dstarg c := take_bit 8 (mem m (addr c)))\<rparr>)
      | CMD_MEM_READ_16 \<Rightarrow>
          Running (i + 1) (m\<lparr>scratch := (scratch m)(dstarg c := take_bit 16 (mem m (addr c)))\<rparr>)
      | CMD_MEM_READ_32 \<Rightarrow>
          Running (i + 1) (m\<lparr>scratch := (scratch m)(dstarg c := mem m (addr c))\<rparr>)
      | CMD_MEM_WRITE_8 \<Rightarrow>
          Running (i + 1) (m\<lparr>mem := (mem m)(addr c := take_bit 8 (cmd_value c))\<rparr>)
      | CMD_MEM_WRITE_16 \<Rightarrow>
          Running (i + 1) (m\<lparr>mem := (mem m)(addr c := take_bit 16 (cmd_value c))\<rparr>)
      | CMD_MEM_WRITE_32 \<Rightarrow>
          Running (i + 1) (m\<lparr>mem := (mem m)(addr c := cmd_value c)\<rparr>)
      | CMD_MEM_WRITE_A_8 \<Rightarrow>
          Running (i + 1) (m\<lparr>mem := (mem m)(addr c := take_bit 8 (scratch m (srcarg c)))\<rparr>)
      | CMD_MEM_WRITE_A_16 \<Rightarrow>
          Running (i + 1) (m\<lparr>mem := (mem m)(addr c := take_bit 16 (scratch m (srcarg c)))\<rparr>)
      | CMD_MEM_WRITE_A_32 \<Rightarrow>
          Running (i + 1) (m\<lparr>mem := (mem m)(addr c := scratch m (srcarg c))\<rparr>)
      | CMD_BTEST \<Rightarrow>
          Running (i + 1)
            (m\<lparr>scratch := (scratch m)(dstarg c := scratch m (srcarg c) AND cmd_value c)\<rparr>)
      | CMD_PREDICATE \<Rightarrow>
          (if scratch m (srcarg c) = 0
           then Running (i + 1 + unat (cmd_value c)) m
           else Running (i + 1) m)
      | CMD_ACCEPT \<Rightarrow> Finished (Some IRQ_ACCEPT) m
      | CMD_DECLINE \<Rightarrow> Finished (Some IRQ_DECLINE) m
      | CMD_LAST \<Rightarrow> Finished None m)"

declare irq_exec_cmd.simps [simp del]

text \<open>
  Modelled from the spec: the interpreter (the kernel's loop is outside the sources at
  hand), running \<open>code\<close> from position \<open>i\<close>.  The first argument bounds the number of
  commands executed: each executed command uses up one unit, and \<open>None\<close> says the bound
  was reached with the program still running.  A position past the last command ends the
  program with no outcome fixed.
\<close>

fun irq_interp ::
  "nat \<Rightarrow> irq_code_t \<Rightarrow> nat \<Rightarrow> machine \<Rightarrow> (irq_ownership_t option \<times> machine) option" where
  "irq_interp 0 code i m = (if length code \<le> i then Some (None, m) else None)"
| "irq_interp (Suc fuel) code i m =
     (if length code \<le> i then Some (None, m)
      else case irq_exec_cmd (code ! i) i m of
             Running i' m' \<Rightarrow> irq_interp fuel code i' m'
           | Finished r m' \<Rightarrow> Some (r, m'))"

text \<open>A machine with every register and every location zero.\<close>

definition zero_machine :: machine where
  "zero_machine = \<lparr>scratch = (\<lambda>r. 0), pio = (\<lambda>p. 0), mem = (\<lambda>p. 0)\<rparr>"

section \<open>Ethernet addresses (uspace/lib/inet/src/eth\_addr.c)\<close>

text \<open>
  \<^verbatim>\<open>ETH_ADDR_SIZE\<close> is defined in a header outside the sources at hand; the shifts
  \<^verbatim>\<open>40 - 8 * i\<close> place byte 0 at bits 40 to 47 and the last byte at bits 0 to 7, which is
  six bytes.
\<close>

definition ETH_ADDR_SIZE :: nat where
  "ETH_ADDR_SIZE = 6"

record eth_addr_t =
  a :: u64

text \<open>
  \<^verbatim>\<open>eth_addr_encode\<close> writes \<^verbatim>\<open>bp[0]\<close> to \<^verbatim>\<open>bp[ETH_ADDR_SIZE - 1]\<close>; the buffer is the
  list of its bytes, which the caller provides with at least that many.
\<close>

definition eth_addr_encode :: "eth_addr_t \<Rightarrow> u8 list \<Rightarrow> u8 list" where
  "eth_addr_encode ea buf =
     fold (\<lambda>i bp. bp[i := ucast (drop_bit (40 - 8 * i) (a ea) AND 0xff)])
       [0..<ETH_ADDR_SIZE] buf"

text \<open>\<^verbatim>\<open>eth_addr_decode\<close> reads the same bytes.\<close>

definition eth_addr_decode :: "u8 list \<Rightarrow> eth_addr_t" where
  "eth_addr_decode bp =
     \<lparr>a = fold (\<lambda>i acc. acc OR push_bit (40 - 8 * i) (ucast (bp ! i))) [0..<ETH_ADDR_SIZE] 0\<rparr>"

section \<open>Properties of the timeout queue\<close>

subsection \<open>The insertion point\<close>

lemma register_scan_takeWhile:
  "register_scan ts d l prev =
     (if takeWhile (\<lambda>x. deadline (ts x) \<le> d) l = [] then prev
      else Some (last (takeWhile (\<lambda>x. deadline (ts x) \<le> d) l)))"
  by (induction l arbitrary: prev) (auto simp: not_less)

lemma list_insert_after_split:
  "p \<notin> set xs \<Longrightarrow> list_insert_after lnk p (xs @ p # ys) = xs @ p # lnk # ys"
  by (induction xs) auto

lemma list_insert_after_last:
  assumes "distinct l" and "takeWhile P l \<noteq> []"
  shows "list_insert_after lnk (last (takeWhile P l)) l = takeWhile P l @ lnk # dropWhile P l"
proof -
  let ?tw = "takeWhile P l"
  have l: "l = butlast ?tw @ last ?tw # dropWhile P l"
    using assms(2) by (metis append_butlast_last_id append_Cons append_Nil append_assoc takeWhile_dropWhile_id)
  have "distinct (butlast ?tw @ [last ?tw])"
    using assms by (metis append_butlast_last_id distinct_takeWhile)
  then have "last ?tw \<notin> set (butlast ?tw)" by auto
  then have "list_insert_after lnk (last ?tw) (butlast ?tw @ last ?tw # dropWhile P l)
      = butlast ?tw @ last ?tw # lnk # dropWhile P l"
    by (rule list_insert_after_split)
  with l assms(2) show ?thesis
    by (metis append_butlast_last_id append_Cons append_Nil append_assoc)
qed

lemma register_insert_eq:
  assumes "distinct l"
  shows "(case register_scan ts d l None of
            None \<Rightarrow> list_prepend lnk l
          | Some prev \<Rightarrow> list_insert_after lnk prev l)
         = takeWhile (\<lambda>x. deadline (ts x) \<le> d) l @ lnk # dropWhile (\<lambda>x. deadline (ts x) \<le> d) l"
proof (cases "takeWhile (\<lambda>x. deadline (ts x) \<le> d) l = []")
  case True
  then have "dropWhile (\<lambda>x. deadline (ts x) \<le> d) l = l"
    by (metis append_Nil takeWhile_dropWhile_id)
  with True show ?thesis by (simp add: register_scan_takeWhile list_prepend_def)
next
  case False
  then show ?thesis
    using list_insert_after_last [OF assms False] by (simp add: register_scan_takeWhile)
qed

lemma sorted_insert_split:
  fixes f :: "'a \<Rightarrow> u64"
  assumes "sorted (map f l)" and "\<forall>x\<in>set l. g x = f x" and "g lnk = d"
  shows "sorted (map g (takeWhile (\<lambda>x. f x \<le> d) l @ lnk # dropWhile (\<lambda>x. f x \<le> d) l))"
proof -
  let ?P = "\<lambda>x. f x \<le> d"
  have s: "sorted (map f (takeWhile ?P l) @ map f (dropWhile ?P l))"
    using assms(1) by (metis map_append takeWhile_dropWhile_id)
  have tw: "\<forall>x\<in>set (takeWhile ?P l). f x \<le> d" by (auto dest: set_takeWhileD)
  have dw: "\<forall>x\<in>set (dropWhile ?P l). d \<le> f x"
  proof (cases "dropWhile ?P l")
    case Nil show ?thesis unfolding Nil by simp
  next
    case (Cons y ys)
    then have "\<not> ?P y" by (metis hd_dropWhile list.sel(1) list.distinct(1))
    moreover have "\<forall>x\<in>set ys. f y \<le> f x" using s Cons by (auto simp: sorted_append)
    ultimately show ?thesis using Cons by auto
  qed
  have eqt: "map g (takeWhile ?P l) = map f (takeWhile ?P l)"
    using assms(2) by (auto dest: set_takeWhileD)
  have eqd: "map g (dropWhile ?P l) = map f (dropWhile ?P l)"
    using assms(2) by (auto dest: set_dropWhileD)
  show ?thesis using s tw dw assms(3) unfolding map_append list.map eqt eqd
    by (auto simp: sorted_append)
qed

lemma distinct_insert_split:
  assumes "distinct l" and "x \<notin> set l"
  shows "distinct (takeWhile P l @ x # dropWhile P l)"
proof -
  have parts: "distinct (takeWhile P l)" "distinct (dropWhile P l)"
    using assms(1) by simp_all
  have disj: "set (takeWhile P l) \<inter> set (dropWhile P l) = {}"
    using assms(1) by (metis distinct_append takeWhile_dropWhile_id)
  have out: "x \<notin> set (takeWhile P l)" "x \<notin> set (dropWhile P l)"
    using assms(2) by (auto dest: set_takeWhileD set_dropWhileD)
  show ?thesis using parts disj out by auto
qed

lemma timeout_register_result:
  assumes idle: "cpu (timeouts s timeout) = None"
    and dist: "distinct (timeout_active_list (cpus s CPU))"
    and fresh: "timeout \<notin> set (timeout_active_list (cpus s CPU))"
  shows "timeout_register us2ticks CPU timeout time hnd ag s =
     Inr (s\<lparr>timeouts := (timeouts s)(timeout :=
              \<lparr>cpu = Some CPU,
               deadline = current_clock_tick (cpus s CPU) + us2ticks time,
               handler = hnd, arg = ag\<rparr>),
            cpus := (cpus s)(CPU := (cpus s CPU)\<lparr>timeout_active_list :=
              takeWhile (\<lambda>x. deadline (timeouts s x) \<le> current_clock_tick (cpus s CPU) + us2ticks time)
                (timeout_active_list (cpus s CPU))
              @ timeout #
              dropWhile (\<lambda>x. deadline (timeouts s x) \<le> current_clock_tick (cpus s CPU) + us2ticks time)
                (timeout_active_list (cpus s CPU))\<rparr>)\<rparr>)"
proof -
  let ?d = "current_clock_tick (cpus s CPU) + us2ticks time"
  let ?new = "\<lparr>cpu = Some CPU, deadline = ?d, handler = hnd, arg = ag\<rparr>"
  let ?ts1 = "(timeouts s)(timeout := ?new)"
  let ?l = "timeout_active_list (cpus s CPU)"
  have tw: "takeWhile (\<lambda>x. deadline (?ts1 x) \<le> ?d) ?l = takeWhile (\<lambda>x. deadline (timeouts s x) \<le> ?d) ?l"
    using fresh by (intro takeWhile_cong) auto
  have dw: "dropWhile (\<lambda>x. deadline (?ts1 x) \<le> ?d) ?l = dropWhile (\<lambda>x. deadline (timeouts s x) \<le> ?d) ?l"
    using fresh by (intro dropWhile_cong) auto
  have ins: "(case register_scan ?ts1 ?d ?l None of
                None \<Rightarrow> list_prepend timeout ?l
              | Some prev \<Rightarrow> list_insert_after timeout prev ?l)
             = takeWhile (\<lambda>x. deadline (timeouts s x) \<le> ?d) ?l @ timeout #
               dropWhile (\<lambda>x. deadline (timeouts s x) \<le> ?d) ?l"
    using register_insert_eq [where ts = ?ts1 and d = ?d and lnk = timeout, OF dist]
    by (simp only: tw dw)
  show ?thesis
    using idle ins by (simp add: timeout_register_def Let_def cong: option.case_cong)
qed

subsection \<open>The queue invariant\<close>

lemma queue_inv_fresh:
  "queue_inv s \<Longrightarrow> cpu (timeouts s timeout) = None \<Longrightarrow>
   timeout \<notin> set (timeout_active_list (cpus s c))"
  by (auto simp: queue_inv_def list_all_iff)

lemma queue_inv_register:
  assumes inv: "queue_inv s"
    and reg: "timeout_register us2ticks CPU timeout time hnd ag s = Inr s'"
  shows "queue_inv s'"
proof -
  have idle: "cpu (timeouts s timeout) = None"
    using reg by (auto simp: timeout_register_def split: if_splits)
  let ?d = "current_clock_tick (cpus s CPU) + us2ticks time"
  let ?l = "timeout_active_list (cpus s CPU)"
  let ?P = "\<lambda>x. deadline (timeouts s x) \<le> ?d"
  have fresh: "timeout \<notin> set (timeout_active_list (cpus s c))" for c
    using inv idle by (rule queue_inv_fresh)
  have dist: "distinct (timeout_active_list (cpus s c))" for c
    using inv by (simp add: queue_inv_def)
  have srt: "sorted (map (\<lambda>t. deadline (timeouts s t)) (timeout_active_list (cpus s c)))" for c
    using inv by (simp add: queue_inv_def deadlines_def)
  have own: "\<forall>t\<in>set (timeout_active_list (cpus s c)). cpu (timeouts s t) = Some c" for c
    using inv by (simp add: queue_inv_def list_all_iff)
  have s': "s' = s\<lparr>timeouts := (timeouts s)(timeout :=
              \<lparr>cpu = Some CPU, deadline = ?d, handler = hnd, arg = ag\<rparr>),
            cpus := (cpus s)(CPU := (cpus s CPU)\<lparr>timeout_active_list :=
              takeWhile ?P ?l @ timeout # dropWhile ?P ?l\<rparr>)\<rparr>"
    using reg timeout_register_result [where us2ticks = us2ticks and time = time and hnd = hnd and ag = ag, OF idle dist fresh] by simp
  have ts': "timeouts s' x = timeouts s x" if "x \<noteq> timeout" for x
    using that by (simp add: s')
  have tst: "timeouts s' timeout = \<lparr>cpu = Some CPU, deadline = ?d, handler = hnd, arg = ag\<rparr>"
    by (simp add: s')
  have l_other: "timeout_active_list (cpus s' c) = timeout_active_list (cpus s c)" if "c \<noteq> CPU" for c
    using that by (simp add: s')
  have l_cpu: "timeout_active_list (cpus s' CPU) = takeWhile ?P ?l @ timeout # dropWhile ?P ?l"
    by (simp add: s')
  have "distinct (timeout_active_list (cpus s' c)) \<and> sorted (deadlines s' c) \<and>
        list_all (\<lambda>t. cpu (timeouts s' t) = Some c) (timeout_active_list (cpus s' c))" for c
  proof (cases "c = CPU")
    case False
    have same: "\<forall>x\<in>set (timeout_active_list (cpus s c)). timeouts s' x = timeouts s x"
      using fresh [of c] ts' by metis
    have meq: "map (\<lambda>t. deadline (timeouts s' t)) (timeout_active_list (cpus s c))
             = map (\<lambda>t. deadline (timeouts s t)) (timeout_active_list (cpus s c))"
      using same by simp
    have own': "\<forall>t\<in>set (timeout_active_list (cpus s c)). cpu (timeouts s' t) = Some c"
      using same own [of c] by simp
    show ?thesis
      using dist [of c] srt [of c] own'
      by (simp add: l_other [OF False] deadlines_def list_all_iff meq)
  next
    case True
    have setl: "set (takeWhile ?P ?l) \<union> set (dropWhile ?P ?l) = set ?l"
      by (metis set_append takeWhile_dropWhile_id)
    have d1: "distinct (takeWhile ?P ?l @ timeout # dropWhile ?P ?l)"
      using dist [of CPU] fresh [of CPU] by (rule distinct_insert_split)
    have same: "\<forall>x\<in>set ?l. deadline (timeouts s' x) = deadline (timeouts s x)"
      using fresh [of CPU] ts' by metis
    have d2: "sorted (map (\<lambda>t. deadline (timeouts s' t)) (takeWhile ?P ?l @ timeout # dropWhile ?P ?l))"
      by (rule sorted_insert_split [OF srt [of CPU] same]) (simp add: tst)
    have d3: "\<forall>t\<in>set (takeWhile ?P ?l @ timeout # dropWhile ?P ?l). cpu (timeouts s' t) = Some CPU"
    proof
      fix t assume "t \<in> set (takeWhile ?P ?l @ timeout # dropWhile ?P ?l)"
      then consider "t = timeout" | "t \<in> set ?l" "t \<noteq> timeout"
        using setl fresh [of CPU] by auto
      then show "cpu (timeouts s' t) = Some CPU"
      proof cases
        case 1 then show ?thesis by (simp add: tst)
      next
        case 2 then show ?thesis using own [of CPU] ts' by simp
      qed
    qed
    show ?thesis using True d1 d2 d3 by (simp add: l_cpu deadlines_def list_all_iff)
  qed
  then show ?thesis by (simp add: queue_inv_def)
qed

lemma list_remove_remove1: "list_remove lnk xs = remove1 lnk xs"
  by (induction xs) auto

lemma queue_inv_unregister:
  assumes inv: "queue_inv s"
  shows "queue_inv (snd (timeout_unregister timeout s))"
proof (cases "cpu (timeouts s timeout)")
  case None
  then show ?thesis using inv by (simp add: timeout_unregister_def)
next
  case (Some c0)
  let ?s' = "snd (timeout_unregister timeout s)"
  have dist: "distinct (timeout_active_list (cpus s c))" for c
    using inv by (simp add: queue_inv_def)
  have srt: "sorted (map (\<lambda>t. deadline (timeouts s t)) (timeout_active_list (cpus s c)))" for c
    using inv by (simp add: queue_inv_def deadlines_def)
  have own: "\<forall>t\<in>set (timeout_active_list (cpus s c)). cpu (timeouts s t) = Some c" for c
    using inv by (simp add: queue_inv_def list_all_iff)
  have l': "timeout_active_list (cpus ?s' c) =
      (if c = c0 then remove1 timeout (timeout_active_list (cpus s c0))
       else timeout_active_list (cpus s c))" for c
    using Some by (simp add: timeout_unregister_def timeout_reinitialize_def Let_def list_remove_remove1)
  have ts': "timeouts ?s' x = timeouts s x" if "x \<noteq> timeout" for x
    using Some that by (simp add: timeout_unregister_def timeout_reinitialize_def Let_def)
  have gone: "timeout \<notin> set (timeout_active_list (cpus ?s' c))" for c
  proof (cases "c = c0")
    case True
    then show ?thesis using dist [of c0] by (simp add: l')
  next
    case False
    then show ?thesis using own [of c] Some by (auto simp: l')
  qed
  have sub: "set (timeout_active_list (cpus ?s' c)) \<subseteq> set (timeout_active_list (cpus s c))" for c
    using set_remove1_subset [of timeout "timeout_active_list (cpus s c0)"] by (auto simp: l')
  have same: "\<forall>x\<in>set (timeout_active_list (cpus ?s' c)). timeouts ?s' x = timeouts s x" for c
    using gone [of c] ts' by metis
  have "distinct (timeout_active_list (cpus ?s' c)) \<and> sorted (deadlines ?s' c) \<and>
        list_all (\<lambda>t. cpu (timeouts ?s' t) = Some c) (timeout_active_list (cpus ?s' c))" for c
  proof -
    have d1: "distinct (timeout_active_list (cpus ?s' c))"
      using dist [of c] dist [of c0] by (simp add: l')
    have srt': "sorted (map (\<lambda>t. deadline (timeouts s t)) (timeout_active_list (cpus ?s' c)))"
      using srt [of c] srt [of c0] by (simp add: l' sorted_map_remove1)
    have meq: "map (\<lambda>t. deadline (timeouts ?s' t)) (timeout_active_list (cpus ?s' c))
        = map (\<lambda>t. deadline (timeouts s t)) (timeout_active_list (cpus ?s' c))"
      using same [of c] by simp
    have d2: "sorted (deadlines ?s' c)"
      unfolding deadlines_def meq by (rule srt')
    have d3: "\<forall>t\<in>set (timeout_active_list (cpus ?s' c)). cpu (timeouts ?s' t) = Some c"
      using same [of c] own [of c] sub [of c] by auto
    show ?thesis using d1 d2 d3 by (simp add: list_all_iff)
  qed
  then show ?thesis by (simp add: queue_inv_def)
qed

lemma boot_initialized:
  "timeout_init c (boot ticks) = boot ticks"
  "timeout_initialize t (boot ticks) = boot ticks"
  by (simp_all add: timeout_init_def timeout_initialize_def timeout_reinitialize_def boot_def
      fun_eq_iff)

lemma queue_inv_boot: "queue_inv (boot ticks)"
  by (simp add: queue_inv_def boot_def deadlines_def)

lemma queue_inv_do_call:
  "queue_inv s \<Longrightarrow> do_call us2ticks c s = Inr s' \<Longrightarrow> queue_inv s'"
proof (cases c)
  case (Register CPU timeout time hnd ag)
  assume "queue_inv s" "do_call us2ticks c s = Inr s'"
  then show ?thesis using Register by (auto intro: queue_inv_register)
next
  case (Unregister timeout)
  assume "queue_inv s" "do_call us2ticks c s = Inr s'"
  then show ?thesis using Unregister queue_inv_unregister [of s timeout] by auto
next
  case (Clock CPU tick)
  assume "queue_inv s" "do_call us2ticks c s = Inr s'"
  then show ?thesis using Clock by (auto simp: queue_inv_def deadlines_def)
qed

lemma queue_inv_run_calls:
  "queue_inv s \<Longrightarrow> run_calls us2ticks cs s = Inr s' \<Longrightarrow> queue_inv s'"
proof (induction cs arbitrary: s)
  case Nil
  then show ?case by simp
next
  case (Cons c cs)
  then show ?case
    by (auto split: sum.splits dest: queue_inv_do_call)
qed

text \<open>
  Claim C2.  Take any sequence of \<^verbatim>\<open>timeout_register\<close> and \<^verbatim>\<open>timeout_unregister\<close> calls
  (with the clock moving in between), started after boot with every queue empty.  After each
  call that completes, that is after every prefix \<open>take n cs\<close> of the sequence that ran
  without a panic, the active timeout list of every processor \<open>c\<close> is sorted ascending by
  deadline.
\<close>

theorem timeout_list_sorted:
  "run_calls us2ticks (take n cs) (boot ticks) = Inr s \<Longrightarrow> sorted (deadlines s c)"
  using queue_inv_run_calls [OF queue_inv_boot] by (auto simp: queue_inv_def)

theorem timeout_list_sorted_witness:
  "\<exists>s. run_calls (\<lambda>us. us)
         (take 5 [Register 0 1 30 None None, Register 0 2 10 None None, Clock 0 5,
                  Register 0 3 20 (Some 7) None, Unregister 1])
         (boot (\<lambda>c. 0)) = Inr s \<and>
       timeout_active_list (cpus s 0) = [2, 3] \<and>
       deadlines s 0 = [10, 25] \<and> sorted (deadlines s 0)"
proof -
  have "\<exists>s. run_calls (\<lambda>us. us)
         (take 5 [Register 0 1 30 None None, Register 0 2 10 None None, Clock 0 5,
                  Register 0 3 20 (Some 7) None, Unregister 1])
         (boot (\<lambda>c. 0)) = Inr s \<and>
       timeout_active_list (cpus s 0) = [2, 3] \<and>
       deadlines s 0 = [10, 25]"
    by (simp add: boot_def timeout_register_def timeout_unregister_def
        timeout_reinitialize_def list_prepend_def deadlines_def Let_def)
  then obtain s where run: "run_calls (\<lambda>us. us)
         (take 5 [Register 0 1 30 None None, Register 0 2 10 None None, Clock 0 5,
                  Register 0 3 20 (Some 7) None, Unregister 1])
         (boot (\<lambda>c. 0)) = Inr s"
    and rest: "timeout_active_list (cpus s 0) = [2, 3]" "deadlines s 0 = [10, 25]"
    by blast
  from timeout_list_sorted [OF run] have "sorted (deadlines s 0)" .
  with run rest show ?thesis by blast
qed

subsection \<open>Results of register and unregister\<close>

lemma timeout_unregister_lists:
  assumes "cpu (timeouts s timeout) = Some c0"
  shows "timeout_active_list (cpus (snd (timeout_unregister timeout s)) c) =
      (if c = c0 then remove1 timeout (timeout_active_list (cpus s c0))
       else timeout_active_list (cpus s c))"
  using assms
  by (simp add: timeout_unregister_def timeout_reinitialize_def Let_def list_remove_remove1)

lemma timeout_unregister_timeouts:
  assumes "cpu (timeouts s timeout) = Some c0"
  shows "timeouts (snd (timeout_unregister timeout s)) =
      (timeouts s)(timeout := \<lparr>cpu = None, deadline = 0, handler = None, arg = None\<rparr>)"
  using assms by (simp add: timeout_unregister_def timeout_reinitialize_def Let_def)

lemma timeout_unregister_removes:
  assumes inv: "queue_inv s" and ret: "fst (timeout_unregister timeout s)"
  shows "timeout \<notin> set (timeout_active_list (cpus (snd (timeout_unregister timeout s)) c))"
    and "timeout_active_list (cpus (snd (timeout_unregister timeout s)) c) =
           remove1 timeout (timeout_active_list (cpus s c))"
    and "timeouts (snd (timeout_unregister timeout s)) timeout =
           \<lparr>cpu = None, deadline = 0, handler = None, arg = None\<rparr>"
proof -
  from ret obtain c0 where own: "cpu (timeouts s timeout) = Some c0"
    by (auto simp: timeout_unregister_def split: option.splits)
  have dist: "distinct (timeout_active_list (cpus s c0))"
    using inv by (simp add: queue_inv_def)
  have other: "timeout \<notin> set (timeout_active_list (cpus s c))" if "c \<noteq> c0"
    using inv own that by (auto simp: queue_inv_def list_all_iff)
  show "timeout \<notin> set (timeout_active_list (cpus (snd (timeout_unregister timeout s)) c))"
    using dist other by (simp add: timeout_unregister_lists [OF own])
  show "timeout_active_list (cpus (snd (timeout_unregister timeout s)) c) =
           remove1 timeout (timeout_active_list (cpus s c))"
    using other by (simp add: timeout_unregister_lists [OF own] remove1_idem)
  show "timeouts (snd (timeout_unregister timeout s)) timeout =
           \<lparr>cpu = None, deadline = 0, handler = None, arg = None\<rparr>"
    by (simp add: timeout_unregister_timeouts [OF own])
qed

lemma owner_linked_boot: "owner_linked (boot ticks)"
  by (simp add: owner_linked_def boot_def)

lemma owner_linked_register:
  assumes inv: "queue_inv s" and ol: "owner_linked s"
    and reg: "timeout_register us2ticks CPU timeout time hnd ag s = Inr s'"
  shows "owner_linked s'"
proof -
  have idle: "cpu (timeouts s timeout) = None"
    using reg by (auto simp: timeout_register_def split: if_splits)
  have dist: "distinct (timeout_active_list (cpus s CPU))"
    using inv by (simp add: queue_inv_def)
  have fresh: "timeout \<notin> set (timeout_active_list (cpus s CPU))"
    using inv idle by (rule queue_inv_fresh)
  let ?d = "current_clock_tick (cpus s CPU) + us2ticks time"
  let ?l = "timeout_active_list (cpus s CPU)"
  let ?P = "\<lambda>x. deadline (timeouts s x) \<le> ?d"
  have s': "s' = s\<lparr>timeouts := (timeouts s)(timeout :=
              \<lparr>cpu = Some CPU, deadline = ?d, handler = hnd, arg = ag\<rparr>),
            cpus := (cpus s)(CPU := (cpus s CPU)\<lparr>timeout_active_list :=
              takeWhile ?P ?l @ timeout # dropWhile ?P ?l\<rparr>)\<rparr>"
    using reg timeout_register_result [where us2ticks = us2ticks and time = time and hnd = hnd
        and ag = ag, OF idle dist fresh] by simp
  have setl: "set (takeWhile ?P ?l @ timeout # dropWhile ?P ?l) = insert timeout (set ?l)"
  proof -
    have "set (takeWhile ?P ?l) \<union> set (dropWhile ?P ?l) = set ?l"
      by (metis set_append takeWhile_dropWhile_id)
    then show ?thesis by auto
  qed
  have sets: "set (timeout_active_list (cpus s' c)) =
      (if c = CPU then insert timeout (set ?l) else set (timeout_active_list (cpus s c)))" for c
    using setl by (simp add: s')
  show ?thesis
    unfolding owner_linked_def
  proof (intro allI impI)
    fix t c assume o: "cpu (timeouts s' t) = Some c"
    show "t \<in> set (timeout_active_list (cpus s' c))"
    proof (cases "t = timeout")
      case True
      with o have "c = CPU" by (simp add: s')
      with True show ?thesis by (simp add: sets)
    next
      case False
      with o have "cpu (timeouts s t) = Some c" by (simp add: s')
      with ol have "t \<in> set (timeout_active_list (cpus s c))" by (simp add: owner_linked_def)
      then show ?thesis by (auto simp: sets)
    qed
  qed
qed

lemma owner_linked_unregister:
  assumes ol: "owner_linked s"
  shows "owner_linked (snd (timeout_unregister timeout s))"
proof (cases "cpu (timeouts s timeout)")
  case None
  then show ?thesis using ol by (simp add: timeout_unregister_def)
next
  case (Some c0)
  show ?thesis
    unfolding owner_linked_def
  proof (intro allI impI)
    fix t c assume o: "cpu (timeouts (snd (timeout_unregister timeout s)) t) = Some c"
    then have ne: "t \<noteq> timeout" by (auto simp: timeout_unregister_timeouts [OF Some])
    with o have "cpu (timeouts s t) = Some c" by (simp add: timeout_unregister_timeouts [OF Some])
    with ol have "t \<in> set (timeout_active_list (cpus s c))" by (simp add: owner_linked_def)
    with ne show "t \<in> set (timeout_active_list (cpus (snd (timeout_unregister timeout s)) c))"
      by (auto simp: timeout_unregister_lists [OF Some])
  qed
qed

lemma invs_do_call:
  assumes "queue_inv s \<and> owner_linked s" and "do_call us2ticks c s = Inr s'"
  shows "queue_inv s' \<and> owner_linked s'"
proof (cases c)
  case (Register CPU timeout time hnd ag)
  then show ?thesis using assms by (auto intro: queue_inv_register owner_linked_register)
next
  case (Unregister timeout)
  then show ?thesis
    using assms queue_inv_unregister [of s timeout] owner_linked_unregister [of s timeout] by auto
next
  case (Clock CPU tick)
  then show ?thesis using assms by (auto simp: queue_inv_def deadlines_def owner_linked_def)
qed

lemma invs_run_calls:
  "queue_inv s \<and> owner_linked s \<Longrightarrow> run_calls us2ticks cs s = Inr s' \<Longrightarrow>
   queue_inv s' \<and> owner_linked s'"
proof (induction cs arbitrary: s)
  case Nil
  then show ?case by simp
next
  case (Cons c cs)
  from Cons.prems(2) obtain s1 where step: "do_call us2ticks c s = Inr s1"
    and rest: "run_calls us2ticks cs s1 = Inr s'"
    by (auto split: sum.splits)
  from invs_do_call [OF Cons.prems(1) step] rest show ?case by (rule Cons.IH)
qed

lemma reachable_invs:
  "run_calls us2ticks cs (boot ticks) = Inr s \<Longrightarrow> queue_inv s \<and> owner_linked s"
  by (rule invs_run_calls [OF conjI [OF queue_inv_boot owner_linked_boot]])

lemma linked_iff_owned:
  assumes "queue_inv s" and "owner_linked s"
  shows "(\<exists>c. timeout \<in> set (timeout_active_list (cpus s c))) \<longleftrightarrow> cpu (timeouts s timeout) \<noteq> None"
proof
  assume "\<exists>c. timeout \<in> set (timeout_active_list (cpus s c))"
  then obtain c where "timeout \<in> set (timeout_active_list (cpus s c))" ..
  moreover have "list_all (\<lambda>t. cpu (timeouts s t) = Some c) (timeout_active_list (cpus s c))"
    using assms(1) by (simp add: queue_inv_def)
  ultimately have "cpu (timeouts s timeout) = Some c" by (simp add: list_all_iff)
  then show "cpu (timeouts s timeout) \<noteq> None" by simp
next
  assume "cpu (timeouts s timeout) \<noteq> None"
  then obtain c where "cpu (timeouts s timeout) = Some c" by auto
  with assms(2) have "timeout \<in> set (timeout_active_list (cpus s c))"
    by (simp add: owner_linked_def)
  then show "\<exists>c. timeout \<in> set (timeout_active_list (cpus s c))" ..
qed

text \<open>
  Claim C3.  \<^verbatim>\<open>timeout_unregister\<close> returns true exactly when the timeout has an owning
  processor at the time of the call, and false when it is not registered.  A second
  \<^verbatim>\<open>timeout_unregister\<close> right after the first returns false; in particular a timeout
  that \<^verbatim>\<open>timeout_register\<close> has just registered is unregistered with true once, and with
  false the second time.  When it returns true on a consistent queue the timeout is removed:
  it is in no processor's active list any more, every list is the one before the call
  without the timeout, and the timeout is reset.  In every state reached from boot, true is
  returned exactly for a timeout that is linked into some processor's active list, and after
  the call the timeout is linked into none.
\<close>

theorem timeout_unregister_result:
  "(fst (timeout_unregister timeout s) \<longleftrightarrow> cpu (timeouts s timeout) \<noteq> None) \<and>
   \<not> fst (timeout_unregister timeout (snd (timeout_unregister timeout s))) \<and>
   (timeout_register us2ticks CPU timeout time hnd ag s = Inr s' \<longrightarrow>
      fst (timeout_unregister timeout s') \<and>
      \<not> fst (timeout_unregister timeout (snd (timeout_unregister timeout s')))) \<and>
   (queue_inv s \<longrightarrow> fst (timeout_unregister timeout s) \<longrightarrow>
      (\<forall>c. timeout \<notin> set (timeout_active_list (cpus (snd (timeout_unregister timeout s)) c)) \<and>
           timeout_active_list (cpus (snd (timeout_unregister timeout s)) c) =
             remove1 timeout (timeout_active_list (cpus s c))) \<and>
      timeouts (snd (timeout_unregister timeout s)) timeout =
        \<lparr>cpu = None, deadline = 0, handler = None, arg = None\<rparr>) \<and>
   (run_calls us2ticks cs (boot ticks) = Inr s \<longrightarrow>
      (fst (timeout_unregister timeout s) \<longleftrightarrow>
         (\<exists>c. timeout \<in> set (timeout_active_list (cpus s c)))) \<and>
      (\<forall>c. timeout \<notin> set (timeout_active_list (cpus (snd (timeout_unregister timeout s)) c))))"
proof -
  have ret: "fst (timeout_unregister timeout s) \<longleftrightarrow> cpu (timeouts s timeout) \<noteq> None" for s
    by (auto simp: timeout_unregister_def Let_def split: option.splits)
  have twice: "\<not> fst (timeout_unregister timeout (snd (timeout_unregister timeout s)))" for s
    by (auto simp: timeout_unregister_def timeout_reinitialize_def Let_def split: option.splits)
  have reg: "fst (timeout_unregister timeout s')"
    if "timeout_register us2ticks CPU timeout time hnd ag s = Inr s'"
    using that by (auto simp: ret timeout_register_def Let_def split: if_splits)
  have gone: "timeout \<notin> set (timeout_active_list (cpus (snd (timeout_unregister timeout s)) c))"
    if "queue_inv s" for c
  proof (cases "fst (timeout_unregister timeout s)")
    case True
    with that show ?thesis by (rule timeout_unregister_removes)
  next
    case False
    then have "cpu (timeouts s timeout) = None" by (simp add: ret)
    then show ?thesis
      using queue_inv_fresh [OF that] by (simp add: timeout_unregister_def)
  qed
  have reach: "(fst (timeout_unregister timeout s) \<longleftrightarrow>
         (\<exists>c. timeout \<in> set (timeout_active_list (cpus s c)))) \<and>
      (\<forall>c. timeout \<notin> set (timeout_active_list (cpus (snd (timeout_unregister timeout s)) c)))"
    if "run_calls us2ticks cs (boot ticks) = Inr s"
  proof -
    from reachable_invs [OF that] have q: "queue_inv s" and o: "owner_linked s" by simp_all
    show ?thesis using linked_iff_owned [OF q o] gone [OF q] by (simp add: ret)
  qed
  show ?thesis
  proof (intro conjI impI allI)
    show "fst (timeout_unregister timeout s) \<longleftrightarrow> cpu (timeouts s timeout) \<noteq> None"
      by (rule ret)
    show "\<not> fst (timeout_unregister timeout (snd (timeout_unregister timeout s)))"
      by (rule twice)
    show "fst (timeout_unregister timeout s')"
      if "timeout_register us2ticks CPU timeout time hnd ag s = Inr s'"
      using that by (rule reg)
    show "\<not> fst (timeout_unregister timeout (snd (timeout_unregister timeout s')))"
      by (rule twice)
    show "timeout \<notin> set (timeout_active_list (cpus (snd (timeout_unregister timeout s)) c))"
      if "queue_inv s" for c
      using that by (rule gone)
    show "timeout_active_list (cpus (snd (timeout_unregister timeout s)) c) =
             remove1 timeout (timeout_active_list (cpus s c))"
      if "queue_inv s" "fst (timeout_unregister timeout s)" for c
      using that by (rule timeout_unregister_removes)
    show "timeouts (snd (timeout_unregister timeout s)) timeout =
        \<lparr>cpu = None, deadline = 0, handler = None, arg = None\<rparr>"
      if "queue_inv s" "fst (timeout_unregister timeout s)"
      using that by (rule timeout_unregister_removes)
    show "fst (timeout_unregister timeout s) \<longleftrightarrow>
         (\<exists>c. timeout \<in> set (timeout_active_list (cpus s c)))"
      if "run_calls us2ticks cs (boot ticks) = Inr s"
      using reach [OF that] by (rule conjunct1)
    show "timeout \<notin> set (timeout_active_list (cpus (snd (timeout_unregister timeout s)) c))"
      if "run_calls us2ticks cs (boot ticks) = Inr s" for c
      using reach [OF that] by simp
  qed
qed

theorem timeout_unregister_result_witness:
  "fst (timeout_unregister 1 (boot (\<lambda>c. 0))) = False \<and>
   (\<exists>s. run_calls (\<lambda>us. us) [Register 0 1 30 None None, Register 0 2 10 None None]
          (boot (\<lambda>c. 0)) = Inr s \<and>
      timeout_active_list (cpus s 0) = [2, 1] \<and>
      fst (timeout_unregister 1 s) \<and>
      timeout_active_list (cpus (snd (timeout_unregister 1 s)) 0) = [2] \<and>
      1 \<notin> set (timeout_active_list (cpus (snd (timeout_unregister 1 s)) 0)) \<and>
      \<not> fst (timeout_unregister 1 (snd (timeout_unregister 1 s))))"
proof -
  have idle: "cpu (timeouts (boot (\<lambda>c. 0)) 1) = None" by (simp add: boot_def)
  have "\<exists>s. run_calls (\<lambda>us. us) [Register 0 1 30 None None, Register 0 2 10 None None]
          (boot (\<lambda>c. 0)) = Inr s \<and> timeout_active_list (cpus s 0) = [2, 1]"
    by (simp add: boot_def timeout_register_def list_prepend_def Let_def)
  then obtain s where run: "run_calls (\<lambda>us. us)
      [Register 0 1 30 None None, Register 0 2 10 None None] (boot (\<lambda>c. 0)) = Inr s"
    and l: "timeout_active_list (cpus s 0) = [2, 1]" by blast
  have linked: "\<exists>c. 1 \<in> set (timeout_active_list (cpus s c))"
    using l by (intro exI [of _ 0]) simp
  have inv: "queue_inv s" using reachable_invs [OF run] by simp
  note at_s = timeout_unregister_result [where timeout = 1 and s = s and us2ticks = "\<lambda>us. us"
      and cs = "[Register 0 1 30 None None, Register 0 2 10 None None]" and ticks = "\<lambda>c. 0"]
  note at_boot = timeout_unregister_result [where timeout = 1 and s = "boot (\<lambda>c. 0)"]
  note reach = at_s [THEN conjunct2, THEN conjunct2, THEN conjunct2, THEN conjunct2]
  from reach run linked have t: "fst (timeout_unregister 1 s)" by simp
  note rem = at_s [THEN conjunct2, THEN conjunct2, THEN conjunct2, THEN conjunct1]
  from rem inv t have both: "\<forall>c. 1 \<notin> set (timeout_active_list
        (cpus (snd (timeout_unregister 1 s)) c)) \<and>
      timeout_active_list (cpus (snd (timeout_unregister 1 s)) c) =
        remove1 1 (timeout_active_list (cpus s c))"
    by blast
  from both [THEN spec, of 0] have
    r2: "1 \<notin> set (timeout_active_list (cpus (snd (timeout_unregister 1 s)) 0))"
    and r1: "timeout_active_list (cpus (snd (timeout_unregister 1 s)) 0) =
       remove1 1 (timeout_active_list (cpus s 0))"
    by (rule conjunct1, rule conjunct2)
  note r3 = at_s [THEN conjunct2, THEN conjunct1]
  from at_boot [THEN conjunct1] idle
  have f: "fst (timeout_unregister 1 (boot (\<lambda>c. 0))) = False" by simp
  from r1 l have r1': "timeout_active_list (cpus (snd (timeout_unregister 1 s)) 0) = [2]"
    by simp
  show ?thesis
    using f run l t r1' r2 r3 by (intro conjI exI [of _ s])
qed

text \<open>
  Claim C4.  \<^verbatim>\<open>timeout_register\<close> panics when the timeout already has an owning
  processor, and returns normally when the timeout's \<^verbatim>\<open>cpu\<close> member is \<^verbatim>\<open>NULL\<close>.
\<close>

theorem timeout_register_panic:
  "(cpu (timeouts s timeout) \<noteq> None \<longrightarrow>
      timeout_register us2ticks CPU timeout time hnd ag s =
        Inl (Panic ''Unexpected: timeout->cpu != 0.'')) \<and>
   (cpu (timeouts s timeout) = None \<longrightarrow>
      (\<exists>s'. timeout_register us2ticks CPU timeout time hnd ag s = Inr s'))"
  by (simp add: timeout_register_def Let_def)

theorem timeout_register_panic_witness:
  "(\<exists>s1. timeout_register (\<lambda>us. us) 0 1 30 None None (boot (\<lambda>c. 0)) = Inr s1 \<and>
      cpu (timeouts s1 1) \<noteq> None \<and>
      timeout_register (\<lambda>us. us) 0 1 50 None None s1 =
        Inl (Panic ''Unexpected: timeout->cpu != 0.''))"
proof -
  have idle: "cpu (timeouts (boot (\<lambda>c. 0)) 1) = None" by (simp add: boot_def)
  with timeout_register_panic [of "boot (\<lambda>c. 0)" 1 "\<lambda>us. us" 0 30 None None]
  obtain s1 where reg: "timeout_register (\<lambda>us. us) 0 1 30 None None (boot (\<lambda>c. 0)) = Inr s1"
    by blast
  then have owned: "cpu (timeouts s1 1) \<noteq> None"
    by (auto simp: timeout_register_def boot_def Let_def)
  with timeout_register_panic [of s1 1 "\<lambda>us. us" 0 50 None None]
  have "timeout_register (\<lambda>us. us) 0 1 50 None None s1 =
        Inl (Panic ''Unexpected: timeout->cpu != 0.'')" by blast
  with reg owned show ?thesis by blast
qed

text \<open>
  Claim C5.  \<^verbatim>\<open>timeout_register\<close> sets the deadline to the registering processor's
  current clock tick plus \<^verbatim>\<open>us2ticks(time)\<close>, in 64-bit unsigned arithmetic (the plain sum
  of the two numbers whenever that sum fits in 64 bits), and sets owner, handler and
  argument to the processor and the values supplied.
\<close>

theorem timeout_register_fields:
  assumes "cpu (timeouts s timeout) = None"
  shows "\<exists>s'. timeout_register us2ticks CPU timeout time hnd ag s = Inr s' \<and>
           timeouts s' timeout =
             \<lparr>cpu = Some CPU,
              deadline = current_clock_tick (cpus s CPU) + us2ticks time,
              handler = hnd, arg = ag\<rparr> \<and>
           (unat (current_clock_tick (cpus s CPU)) + unat (us2ticks time) < 2 ^ 64 \<longrightarrow>
              unat (deadline (timeouts s' timeout)) =
                unat (current_clock_tick (cpus s CPU)) + unat (us2ticks time))"
  using assms by (simp add: timeout_register_def Let_def unat_word_ariths)

theorem timeout_register_fields_witness:
  "\<exists>s'. timeout_register (\<lambda>us. us div 1000) 0 1 30000 (Some 7) (Some 9) (boot (\<lambda>c. 12)) = Inr s' \<and>
     timeouts s' 1 = \<lparr>cpu = Some 0, deadline = 42, handler = Some 7, arg = Some 9\<rparr>"
proof -
  have idle: "cpu (timeouts (boot (\<lambda>c. 12)) 1) = None" by (simp add: boot_def)
  from timeout_register_fields [OF idle, of "\<lambda>us. us div 1000" 0 30000 "Some 7" "Some 9"]
  show ?thesis by (auto simp: boot_def)
qed

text \<open>
  Claim C9.  When \<^verbatim>\<open>timeout_unregister\<close> returns false, the state is the one before the
  call: the timeout's owner, deadline, handler, argument and place in the lists, and every
  processor's active list.
\<close>

theorem timeout_unregister_false_unchanged:
  "fst (timeout_unregister timeout s) = False \<Longrightarrow> snd (timeout_unregister timeout s) = s"
  by (auto simp: timeout_unregister_def Let_def split: option.splits)

theorem timeout_unregister_false_unchanged_witness:
  "fst (timeout_unregister 1 (boot (\<lambda>c. 0))) = False \<and>
   snd (timeout_unregister 1 (boot (\<lambda>c. 0))) = boot (\<lambda>c. 0)"
proof -
  have f: "fst (timeout_unregister 1 (boot (\<lambda>c. 0))) = False"
    by (simp add: timeout_unregister_def boot_def)
  from timeout_unregister_false_unchanged [OF f] f show ?thesis by simp
qed

subsection \<open>Where a timeout is inserted\<close>

lemma sorted_dropWhile_greater:
  fixes f :: "'a \<Rightarrow> u64"
  assumes "sorted (map f l)"
  shows "\<forall>x\<in>set (dropWhile (\<lambda>x. f x \<le> d) l). d < f x"
proof (cases "dropWhile (\<lambda>x. f x \<le> d) l")
  case Nil
  show ?thesis unfolding Nil by simp
next
  case (Cons y ys)
  have "sorted (map f (takeWhile (\<lambda>x. f x \<le> d) l) @ map f (dropWhile (\<lambda>x. f x \<le> d) l))"
    using assms by (metis map_append takeWhile_dropWhile_id)
  then have "sorted (map f (y # ys))" unfolding Cons by (simp only: sorted_append)
  then have "\<forall>x\<in>set ys. f y \<le> f x" by simp
  moreover have "d < f y"
    using Cons by (metis hd_dropWhile list.sel(1) list.distinct(1) not_le)
  ultimately show ?thesis unfolding Cons by auto
qed

text \<open>
  Claim C6.  \<^verbatim>\<open>timeout_register\<close> links the timeout right before the first entry of the
  processor's list whose deadline is strictly greater than the new deadline \<open>d\<close> (the list
  after the call is the entries up to there, the timeout, and the rest), and at the tail
  when there is no such entry.  Every entry before it has a deadline of at most \<open>d\<close>, and in
  a sorted list every entry with a deadline equal to \<open>d\<close>, registered earlier, stays before it.
\<close>

theorem timeout_register_position:
  assumes idle: "cpu (timeouts s timeout) = None"
    and dist: "distinct (timeout_active_list (cpus s CPU))"
    and fresh: "timeout \<notin> set (timeout_active_list (cpus s CPU))"
    and d: "d = current_clock_tick (cpus s CPU) + us2ticks time"
    and l: "l = timeout_active_list (cpus s CPU)"
  shows "\<exists>s'. timeout_register us2ticks CPU timeout time hnd ag s = Inr s' \<and>
           timeout_active_list (cpus s' CPU) =
             takeWhile (\<lambda>x. deadline (timeouts s x) \<le> d) l @ timeout #
             dropWhile (\<lambda>x. deadline (timeouts s x) \<le> d) l \<and>
           (dropWhile (\<lambda>x. deadline (timeouts s x) \<le> d) l \<noteq> [] \<longrightarrow>
              d < deadline (timeouts s (hd (dropWhile (\<lambda>x. deadline (timeouts s x) \<le> d) l)))) \<and>
           (\<forall>x\<in>set (takeWhile (\<lambda>x. deadline (timeouts s x) \<le> d) l).
              deadline (timeouts s x) \<le> d) \<and>
           (sorted (deadlines s CPU) \<longrightarrow>
              (\<forall>x\<in>set l. deadline (timeouts s x) = d \<longrightarrow>
                 x \<in> set (takeWhile (\<lambda>x. deadline (timeouts s x) \<le> d) l)))"
proof -
  let ?P = "\<lambda>x. deadline (timeouts s x) \<le> d"
  have c1: "dropWhile ?P l \<noteq> [] \<longrightarrow> d < deadline (timeouts s (hd (dropWhile ?P l)))"
    by (metis hd_dropWhile not_le)
  have c2: "\<forall>x\<in>set (takeWhile ?P l). deadline (timeouts s x) \<le> d"
    by (auto dest: set_takeWhileD)
  have c3: "x \<in> set (takeWhile ?P l)"
    if srt: "sorted (deadlines s CPU)" and x: "x \<in> set l" "deadline (timeouts s x) = d" for x
  proof -
    have "sorted (map (\<lambda>t. deadline (timeouts s t)) l)"
      using srt by (simp add: deadlines_def l)
    then have "\<forall>y\<in>set (dropWhile ?P l). d < deadline (timeouts s y)"
      by (rule sorted_dropWhile_greater)
    then have "x \<notin> set (dropWhile ?P l)" using x(2) by auto
    moreover have "x \<in> set (takeWhile ?P l) \<union> set (dropWhile ?P l)"
      using x(1) by (metis set_append takeWhile_dropWhile_id)
    ultimately show ?thesis by simp
  qed
  show ?thesis
    using timeout_register_result [OF idle dist fresh, where us2ticks = us2ticks and time = time
        and hnd = hnd and ag = ag] c1 c2 c3
    unfolding d [symmetric] l [symmetric] by auto
qed

theorem timeout_register_position_witness:
  "\<exists>s'. timeout_register (\<lambda>us. us) 0 3 10 None None two_queued = Inr s' \<and>
     timeout_active_list (cpus s' 0) = [2, 3, 1] \<and>
     map (\<lambda>t. deadline (timeouts s' t)) (timeout_active_list (cpus s' 0)) = [10, 10, 30]"
proof -
  have idle: "cpu (timeouts two_queued 3) = None" by (simp add: two_queued_def)
  have dist: "distinct (timeout_active_list (cpus two_queued 0))" by (simp add: two_queued_def)
  have fresh: "3 \<notin> set (timeout_active_list (cpus two_queued 0))" by (simp add: two_queued_def)
  have d: "(10 :: u64) = current_clock_tick (cpus two_queued 0) + (\<lambda>us. us) 10"
    by (simp add: two_queued_def)
  have l: "[2, 1] = timeout_active_list (cpus two_queued 0)" by (simp add: two_queued_def)
  from timeout_register_position [where s = two_queued and timeout = 3 and CPU = 0
      and us2ticks = "\<lambda>us. us" and time = 10 and d = 10 and l = "[2, 1]"
      and hnd = None and ag = None, OF idle dist fresh d l]
  obtain s' where reg: "timeout_register (\<lambda>us. us) 0 3 10 None None two_queued = Inr s'"
    and pos: "timeout_active_list (cpus s' 0) =
             takeWhile (\<lambda>x. deadline (timeouts two_queued x) \<le> 10) [2, 1] @ 3 #
             dropWhile (\<lambda>x. deadline (timeouts two_queued x) \<le> 10) [2, 1]"
    by blast
  from pos have pos': "timeout_active_list (cpus s' 0) = [2, 3, 1]"
    by (simp add: two_queued_def)
  from reg have "map (\<lambda>t. deadline (timeouts s' t)) [2, 3, 1] = [10, 10, 30]"
    by (auto simp: timeout_register_def two_queued_def Let_def)
  with reg pos' show ?thesis by simp
qed

section \<open>Properties of the interrupt pseudocode interpreter\<close>

lemma irq_exec_cmd_forward: "irq_exec_cmd c i m = Running i' m' \<Longrightarrow> i < i'"
  by (cases "cmd c") (auto simp: irq_exec_cmd.simps split: if_splits)

lemma irq_interp_enough_fuel:
  "length code - i \<le> fuel \<Longrightarrow> \<exists>r. irq_interp fuel code i m = Some r"
proof (induction fuel arbitrary: i m)
  case 0
  then show ?case by simp
next
  case (Suc fuel)
  show ?case
  proof (cases "length code \<le> i")
    case True
    then show ?thesis by simp
  next
    case False
    show ?thesis
    proof (cases "irq_exec_cmd (code ! i) i m")
      case (Running i' m')
      then have "i < i'" by (rule irq_exec_cmd_forward)
      with Suc.prems have "length code - i' \<le> fuel" by arith
      from Suc.IH [OF this] show ?thesis using False Running by simp
    next
      case (Finished r m')
      then show ?thesis using False by simp
    qed
  qed
qed

lemma irq_interp_more_fuel:
  "irq_interp fuel code i m = Some r \<Longrightarrow> irq_interp (fuel + k) code i m = Some r"
proof (induction fuel arbitrary: i m)
  case 0
  then show ?case by (cases k) (auto split: if_splits)
next
  case (Suc fuel)
  then show ?case by (auto split: if_splits status.splits)
qed

lemma irq_interp_numeral:
  "irq_interp (numeral k) code i m =
     (if length code \<le> i then Some (None, m)
      else case irq_exec_cmd (code ! i) i m of
             Running i' m' \<Rightarrow> irq_interp (pred_numeral k) code i' m'
           | Finished r m' \<Rightarrow> Some (r, m'))"
  by (simp add: numeral_eq_Suc)

text \<open>
  Claim C7.  Control only moves forward: a command at position \<open>i\<close> that does not end the
  program hands over to a position strictly after \<open>i\<close> (the only transfer is the forward skip
  of Predicate), so no command runs twice.  Hence a program of \<open>n\<close> commands returns after
  at most \<open>n\<close> command steps: a budget of \<open>length code\<close> steps is enough for a result.
\<close>

theorem irq_interp_bounded:
  "(\<forall>i m i' m'. i < length code \<longrightarrow> irq_exec_cmd (code ! i) i m = Running i' m' \<longrightarrow> i < i') \<and>
   (\<exists>r. irq_interp (length code) code 0 m = Some r)"
proof -
  have "\<exists>r. irq_interp (length code) code 0 m = Some r"
    by (rule irq_interp_enough_fuel) simp
  then show ?thesis using irq_exec_cmd_forward by blast
qed

theorem irq_interp_bounded_witness:
  "irq_exec_cmd (ne2k_cmds 7 15 4 0x7F ! 2) 2 zero_machine = Running 7 zero_machine \<and>
   (2 :: nat) < 7 \<and>
   (\<exists>r. irq_interp (length (ne2k_cmds 7 15 4 0x7F)) (ne2k_cmds 7 15 4 0x7F) 0 zero_machine = Some r)"
proof -
  have len: "(2 :: nat) < length (ne2k_cmds 7 15 4 0x7F)" by (simp add: ne2k_cmds_def)
  have run: "irq_exec_cmd (ne2k_cmds 7 15 4 0x7F ! 2) 2 zero_machine = Running 7 zero_machine"
    by (simp add: ne2k_cmds_def zero_machine_def irq_exec_cmd.simps)
  from irq_interp_bounded [of "ne2k_cmds 7 15 4 0x7F" zero_machine] len run
  show ?thesis by blast
qed

text \<open>
  Claim C1.  At every program position \<open>i\<close> that holds a Predicate command with source
  register \<open>src\<close> and count \<open>v\<close>: if \<open>scratch[src]\<close> is zero the interpreter goes on at
  position \<open>i + 1 + v\<close>, skipping exactly the next \<open>v\<close> commands; if it is not zero, whatever
  its value, the interpreter goes on at position \<open>i + 1\<close> and the next commands run normally.
  The machine is the same in both cases.
\<close>

theorem irq_predicate_semantics:
  assumes "i < length code" and "cmd (code ! i) = CMD_PREDICATE"
  shows "irq_exec_cmd (code ! i) i m =
           Running (if scratch m (srcarg (code ! i)) = 0
                    then i + 1 + unat (cmd_value (code ! i)) else i + 1) m \<and>
         irq_interp (Suc fuel) code i m =
           (if scratch m (srcarg (code ! i)) = 0
            then irq_interp fuel code (i + 1 + unat (cmd_value (code ! i))) m
            else irq_interp fuel code (i + 1) m)"
  using assms by (simp add: irq_exec_cmd.simps)

theorem irq_predicate_semantics_witness:
  "irq_interp (Suc 4) (ne2k_cmds 7 15 4 0x7F) 2 zero_machine =
     irq_interp 4 (ne2k_cmds 7 15 4 0x7F) 7 zero_machine \<and>
   irq_interp 4 (ne2k_cmds 7 15 4 0x7F) 7 zero_machine = Some (None, zero_machine) \<and>
   irq_interp (Suc 4) (ne2k_cmds 7 15 4 0x7F) 2 (zero_machine\<lparr>scratch := (\<lambda>r. 0)(3 := 2)\<rparr>) =
     irq_interp 4 (ne2k_cmds 7 15 4 0x7F) 3 (zero_machine\<lparr>scratch := (\<lambda>r. 0)(3 := 2)\<rparr>)"
proof -
  have len: "2 < length (ne2k_cmds 7 15 4 0x7F)" by (simp add: ne2k_cmds_def)
  have op: "cmd (ne2k_cmds 7 15 4 0x7F ! 2) = CMD_PREDICATE" by (simp add: ne2k_cmds_def)
  have args: "srcarg (ne2k_cmds 7 15 4 0x7F ! 2) = 3" "cmd_value (ne2k_cmds 7 15 4 0x7F ! 2) = 4"
    by (simp_all add: ne2k_cmds_def)
  have stop: "irq_interp 4 (ne2k_cmds 7 15 4 0x7F) 7 zero_machine = Some (None, zero_machine)"
    by (simp add: ne2k_cmds_def irq_interp_numeral)
  from irq_predicate_semantics [OF len op, of zero_machine 4]
  have skip: "irq_interp (Suc 4) (ne2k_cmds 7 15 4 0x7F) 2 zero_machine =
     irq_interp 4 (ne2k_cmds 7 15 4 0x7F) 7 zero_machine"
    by (simp add: args zero_machine_def)
  from irq_predicate_semantics [OF len op, of "zero_machine\<lparr>scratch := (\<lambda>r. 0)(3 := 2)\<rparr>" 4]
  have go: "irq_interp (Suc 4) (ne2k_cmds 7 15 4 0x7F) 2 (zero_machine\<lparr>scratch := (\<lambda>r. 0)(3 := 2)\<rparr>) =
     irq_interp 4 (ne2k_cmds 7 15 4 0x7F) 3 (zero_machine\<lparr>scratch := (\<lambda>r. 0)(3 := 2)\<rparr>)"
    by (simp add: args zero_machine_def)
  from skip stop go show ?thesis by simp
qed

text \<open>
  The NE2000 program accepts exactly when a supported cause is pending: otherwise its
  Predicate skips the four commands up to and including the Accept and the program runs
  off its end.
\<close>

lemma ne2k_cmds_outcome:
  "map_option fst (irq_interp 7 (ne2k_cmds isr_port imr_port tsr_port isr_mask) 0 m) =
     Some (if take_bit 8 (pio m isr_port) AND isr_mask = 0 then None else Some IRQ_ACCEPT)"
  by (simp add: ne2k_cmds_def irq_interp_numeral irq_exec_cmd.simps)

section \<open>Properties of the Ethernet address codec\<close>

lemma upt_6: "[0..<6] = [0, 1, 2, 3, 4, 5 :: nat]"
  by code_simp

lemma list6:
  assumes "length (xs :: 'a list) = 6"
  obtains x0 x1 x2 x3 x4 x5 where "xs = [x0, x1, x2, x3, x4, x5]"
proof -
  from assms obtain x0 r0 where "xs = x0 # r0" "length r0 = 5" by (cases xs) auto
  moreover then obtain x1 r1 where "r0 = x1 # r1" "length r1 = 4" by (cases r0) auto
  moreover then obtain x2 r2 where "r1 = x2 # r2" "length r2 = 3" by (cases r1) auto
  moreover then obtain x3 r3 where "r2 = x3 # r3" "length r3 = 2" by (cases r2) auto
  moreover then obtain x4 r4 where "r3 = x4 # r4" "length r4 = 1" by (cases r3) auto
  moreover then obtain x5 where "r4 = [x5]" by (cases r4) auto
  ultimately show ?thesis using that by simp
qed

lemma byte_of: "(ucast (drop_bit k (w :: u64) AND 0xff) :: u8) = ucast (drop_bit k w)"
proof -
  have m: "(0xff :: u64) = mask 8" by (simp add: mask_eq_exp_minus_1)
  show ?thesis unfolding m by (rule bit_word_eqI) (auto simp: bit_simps)
qed

lemma eth_addr_encode_bytes:
  "length buf = 6 \<Longrightarrow>
   eth_addr_encode ea buf =
     [ucast (drop_bit 40 (a ea)), ucast (drop_bit 32 (a ea)), ucast (drop_bit 24 (a ea)),
      ucast (drop_bit 16 (a ea)), ucast (drop_bit 8 (a ea)), ucast (a ea)]"
  by (erule list6) (simp add: eth_addr_encode_def ETH_ADDR_SIZE_def upt_6 byte_of del: upt.simps)

lemma eth_addr_decode_bytes:
  "a (eth_addr_decode [b0, b1, b2, b3, b4, b5]) =
     push_bit 40 (ucast b0) OR push_bit 32 (ucast b1) OR push_bit 24 (ucast b2) OR
     push_bit 16 (ucast b3) OR push_bit 8 (ucast b4) OR ucast b5"
  by (simp add: eth_addr_decode_def ETH_ADDR_SIZE_def upt_6 ac_simps del: upt.simps)


lemma slice_or:
  "(ucast (drop_bit k (x OR y :: u64)) :: u8) = ucast (drop_bit k x) OR ucast (drop_bit k y)"
  by (rule bit_word_eqI) (simp add: bit_simps)

lemma slice_hit:
  "k \<le> 56 \<Longrightarrow> (ucast (drop_bit k (push_bit k (ucast (b :: u8) :: u64))) :: u8) = b"
  by (rule bit_word_eqI) (auto simp: bit_simps)

lemma slice_miss:
  "j + 8 \<le> k \<or> k + 8 \<le> j \<Longrightarrow>
   (ucast (drop_bit k (push_bit j (ucast (b :: u8) :: u64))) :: u8) = 0"
  by (rule bit_word_eqI) (auto simp: bit_simps dest: bit_imp_le_length)

lemma slice_grow:
  "push_bit k (ucast (ucast (drop_bit k w) :: u8) :: u64) OR take_bit k w = take_bit (k + 8) (w :: u64)"
  by (rule bit_word_eqI) (auto simp: bit_simps)

lemma pack_unpack:
  fixes b0 b1 b2 b3 b4 b5 :: u8
  defines "w \<equiv> (push_bit 40 (ucast b0) OR push_bit 32 (ucast b1) OR push_bit 24 (ucast b2) OR
     push_bit 16 (ucast b3) OR push_bit 8 (ucast b4) OR ucast b5 :: u64)"
  shows "ucast (drop_bit 40 w) = b0" "ucast (drop_bit 32 w) = b1" "ucast (drop_bit 24 w) = b2"
    "ucast (drop_bit 16 w) = b3" "ucast (drop_bit 8 w) = b4" "ucast w = b5"
  unfolding w_def
  using slice_or [of 0] slice_hit [of 0] slice_miss [of 0] slice_miss [of _ 0]
  by (simp_all add: slice_or slice_hit slice_miss)

lemma unpack_pack:
  fixes w :: u64
  assumes "w < 2 ^ 48"
  shows "push_bit 40 (ucast (ucast (drop_bit 40 w) :: u8)) OR
         push_bit 32 (ucast (ucast (drop_bit 32 w) :: u8)) OR
         push_bit 24 (ucast (ucast (drop_bit 24 w) :: u8)) OR
         push_bit 16 (ucast (ucast (drop_bit 16 w) :: u8)) OR
         push_bit 8 (ucast (ucast (drop_bit 8 w) :: u8)) OR
         ucast (ucast w :: u8) = w"
proof -
  have s48: "take_bit 48 w = push_bit 40 (ucast (ucast (drop_bit 40 w) :: u8)) OR take_bit 40 w"
    using slice_grow [of 40 w] by simp
  have s40: "take_bit 40 w = push_bit 32 (ucast (ucast (drop_bit 32 w) :: u8)) OR take_bit 32 w"
    using slice_grow [of 32 w] by simp
  have s32: "take_bit 32 w = push_bit 24 (ucast (ucast (drop_bit 24 w) :: u8)) OR take_bit 24 w"
    using slice_grow [of 24 w] by simp
  have s24: "take_bit 24 w = push_bit 16 (ucast (ucast (drop_bit 16 w) :: u8)) OR take_bit 16 w"
    using slice_grow [of 16 w] by simp
  have s16: "take_bit 16 w = push_bit 8 (ucast (ucast (drop_bit 8 w) :: u8)) OR take_bit 8 w"
    using slice_grow [of 8 w] by simp
  have s8: "take_bit 8 w = ucast (ucast w :: u8)"
    using slice_grow [of 0 w] by simp
  have "take_bit 48 w = w"
    using less_mask_eq [OF assms] by (simp add: take_bit_eq_mask)
  then show ?thesis
    by (simp only: s48 s40 s32 s24 s16 s8)
qed

text \<open>
  Claim C10.  Encoding and decoding are mutually inverse: for every six-byte buffer \<open>b\<close>,
  \<^verbatim>\<open>eth_addr_encode\<close> of the address that \<^verbatim>\<open>eth_addr_decode\<close> reads from \<open>b\<close> writes back
  exactly \<open>b\<close>; and for every address whose value fits in 48 bits, \<^verbatim>\<open>eth_addr_decode\<close> of
  the bytes that \<^verbatim>\<open>eth_addr_encode\<close> writes returns the same address.
\<close>

theorem eth_addr_roundtrip:
  "(length b = ETH_ADDR_SIZE \<longrightarrow> length buf = ETH_ADDR_SIZE \<longrightarrow>
      eth_addr_encode (eth_addr_decode b) buf = b) \<and>
   (a ea < 2 ^ 48 \<longrightarrow> length buf = ETH_ADDR_SIZE \<longrightarrow>
      eth_addr_decode (eth_addr_encode ea buf) = ea)"
proof (intro conjI impI)
  assume b: "length b = ETH_ADDR_SIZE" and buf: "length buf = ETH_ADDR_SIZE"
  from b obtain b0 b1 b2 b3 b4 b5 where bs: "b = [b0, b1, b2, b3, b4, b5]"
    unfolding ETH_ADDR_SIZE_def by (rule list6)
  from buf have "length buf = 6" by (simp add: ETH_ADDR_SIZE_def)
  then show "eth_addr_encode (eth_addr_decode b) buf = b"
    unfolding bs by (simp only: eth_addr_encode_bytes eth_addr_decode_bytes pack_unpack)
next
  assume fit: "a ea < 2 ^ 48" and buf: "length buf = ETH_ADDR_SIZE"
  from buf have "length buf = 6" by (simp add: ETH_ADDR_SIZE_def)
  then have "a (eth_addr_decode (eth_addr_encode ea buf)) = a ea"
    by (simp only: eth_addr_encode_bytes eth_addr_decode_bytes unpack_pack [OF fit])
  then show "eth_addr_decode (eth_addr_encode ea buf) = ea"
    by simp
qed

theorem eth_addr_roundtrip_witness:
  "eth_addr_decode [0x00, 0x1b, 0x21, 0x3c, 0x4d, 0x5e] = \<lparr>a = 0x001b213c4d5e\<rparr> \<and>
   eth_addr_encode (eth_addr_decode [0x00, 0x1b, 0x21, 0x3c, 0x4d, 0x5e]) [0, 0, 0, 0, 0, 0] =
     [0x00, 0x1b, 0x21, 0x3c, 0x4d, 0x5e] \<and>
   eth_addr_decode (eth_addr_encode \<lparr>a = 0x001b213c4d5e\<rparr> [0, 0, 0, 0, 0, 0]) =
     \<lparr>a = 0x001b213c4d5e\<rparr>"
proof -
  have dec: "eth_addr_decode [0x00, 0x1b, 0x21, 0x3c, 0x4d, 0x5e] = \<lparr>a = 0x001b213c4d5e\<rparr>"
    by (simp add: eth_addr_decode_def ETH_ADDR_SIZE_def upt_6 del: upt.simps)
  have len: "length [0x00, 0x1b, 0x21, 0x3c, 0x4d, 0x5e :: u8] = ETH_ADDR_SIZE"
    "length [0, 0, 0, 0, 0, 0 :: u8] = ETH_ADDR_SIZE"
    by (simp_all add: ETH_ADDR_SIZE_def)
  have fit: "a \<lparr>a = 0x001b213c4d5e\<rparr> < 2 ^ 48" by simp
  from eth_addr_roundtrip [of "[0x00, 0x1b, 0x21, 0x3c, 0x4d, 0x5e]" "[0, 0, 0, 0, 0, 0]"
      "\<lparr>a = 0x001b213c4d5e\<rparr>"] len fit dec
  show ?thesis by blast
qed

text \<open>Bits 48 and above are not encoded: the bound of 48 bits is needed.\<close>

lemma eth_addr_decode_encode_needs_48_bits:
  "eth_addr_decode (eth_addr_encode \<lparr>a = 2 ^ 48\<rparr> [0, 0, 0, 0, 0, 0]) = \<lparr>a = 0\<rparr>"
  by (simp add: eth_addr_decode_def eth_addr_encode_def ETH_ADDR_SIZE_def upt_6 del: upt.simps)

end
